theory Spec2Isabelle
  imports Main
begin

section \<open>The grouped repacking driver of \<open>example_repository.py\<close>\<close>

text \<open>
  This theory embeds \<open>export_from_pack_grouped\<close> (lines 96 to 204 of
  \<open>src/example_repository.py\<close>): the driver that copies the objects of a pack store
  into a new container, group by group, buffering small objects in a dictionary until
  the next one would push the buffered size over \<open>max_memory_usage\<close>.

  The collaborators of the driver are libraries that are not part of the source file:
  \<^item> \<open>source_repo.container.get_objects_stream_and_meta\<close> yields, for a group, triplets
    \<open>(old_obj_hashkey, stream, meta)\<close>; the model takes, for every group, the list
    of triplets that the iteration yields, in order;
  \<^item> \<open>output_container.add_streamed_objects_to_pack\<close> takes a list of streams and
    returns a list of new hash keys; the model takes the function from stream lists
    to hash-key lists as a parameter (\<open>pack_writer\<close>) and keeps, as the state of the
    container, the stream lists it has been called with.

  Printing and the timing variables (\<open>start\<close>, \<open>write_time\<close>, \<open>tot_time\<close>) do not
  influence any value the function returns and are left out, as are the arguments
  that are only handed to the container (\<open>extract_to\<close>, \<open>compress\<close>,
  \<open>pack_size_target\<close>) or only select printing (\<open>print_space_statistics\<close>).
\<close>

subsection \<open>Data\<close>

type_synonym hashkey = string

text \<open>The content of a stream: what \<open>stream.read()\<close> returns, one character per byte.\<close>

type_synonym bytes = string

text \<open>
  One item of \<open>for old_obj_hashkey, stream, meta in triplets\<close>; \<open>meta_size\<close> is
  \<open>meta['size']\<close>, a Python integer.
\<close>

record triplet =
  old_obj_hashkey :: hashkey
  stream :: bytes
  meta_size :: int

text \<open>
  The exceptions the function can raise by itself: \<open>[0]\<close> on an empty list
  (line 140) and the read of a local variable that was never assigned (line 204).
\<close>

datatype error = IndexError | UnboundLocalError

subsection \<open>Python dictionaries\<close>

text \<open>
  A \<open>dict\<close> keeps its items in insertion order (Python 3.7 and later), and an
  assignment to a key that is already present replaces the value where the key
  stands. It is modelled as an association list without repeated keys.
\<close>

type_synonym 'v pydict = "(hashkey \<times> 'v) list"

fun dict_setitem :: "'v pydict \<Rightarrow> hashkey \<Rightarrow> 'v \<Rightarrow> 'v pydict" where
  "dict_setitem [] k v = [(k, v)]"
| "dict_setitem ((k', v') # d) k v =
     (if k' = k then (k, v) # d else (k', v') # dict_setitem d k v)"

text \<open>\<open>dict(pairs)\<close>: the pairs are inserted from left to right.\<close>

fun dict_update_pairs :: "'v pydict \<Rightarrow> (hashkey \<times> 'v) list \<Rightarrow> 'v pydict" where
  "dict_update_pairs d [] = d"
| "dict_update_pairs d ((k, v) # ps) = dict_update_pairs (dict_setitem d k v) ps"

definition dict_from_pairs :: "(hashkey \<times> 'v) list \<Rightarrow> 'v pydict" where
  "dict_from_pairs ps = dict_update_pairs [] ps"

text \<open>\<open>d.get(k)\<close>, and \<open>d.keys()\<close> and \<open>d.items()\<close> in iteration order.\<close>

definition dict_get :: "'v pydict \<Rightarrow> hashkey \<Rightarrow> 'v option" where
  "dict_get d k = map_of d k"

definition dict_keys :: "'v pydict \<Rightarrow> hashkey list" where
  "dict_keys d = map fst d"

definition dict_items :: "'v pydict \<Rightarrow> (hashkey \<times> 'v) list" where
  "dict_items d = d"

subsection \<open>The output container\<close>

text \<open>
  The container is seen through \<open>add_streamed_objects_to_pack\<close> only. Its state is
  the list of the stream lists it received, one per call, oldest first.
\<close>

record container =
  packed :: "bytes list list"

type_synonym pack_writer = "bytes list \<Rightarrow> hashkey list"

definition add_streamed_objects_to_pack ::
  "pack_writer \<Rightarrow> container \<Rightarrow> bytes list \<Rightarrow> container \<times> hashkey list" where
  "add_streamed_objects_to_pack w c stream_list =
     (c\<lparr>packed := packed c @ [stream_list]\<rparr>, w stream_list)"

subsection \<open>The local variables of one group\<close>

record export_state =
  output_container :: container
  old_obj_hashkeys :: "hashkey list"
  new_obj_hashkeys :: "hashkey list"
  content_cache :: "bytes pydict"
  cache_size :: int

text \<open>Lines 125 to 128: the variables as they are set before the loop over the triplets.\<close>

definition initial_state :: "container \<Rightarrow> export_state" where
  "initial_state c =
     \<lparr>output_container = c, old_obj_hashkeys = [], new_obj_hashkeys = [],
      content_cache = [], cache_size = 0\<rparr>"

subsection \<open>The three branches and the flush\<close>

text \<open>
  Lines 136 to 140, the direct write. The old key is appended first; the writer is
  called with the one stream, and \<open>[0]\<close> of its result raises \<open>IndexError\<close> when the
  result is empty.
\<close>

definition direct_write :: "pack_writer \<Rightarrow> export_state \<Rightarrow> triplet \<Rightarrow> error + export_state" where
  "direct_write w st t =
     (case add_streamed_objects_to_pack w (output_container st) [stream t] of
        (c, new_hashkeys) \<Rightarrow>
          (case new_hashkeys of
             [] \<Rightarrow> Inl IndexError
           | h # _ \<Rightarrow>
               Inr (st\<lparr>output_container := c,
                       old_obj_hashkeys := old_obj_hashkeys st @ [old_obj_hashkey t],
                       new_obj_hashkeys := new_obj_hashkeys st @ [h]\<rparr>)))"

text \<open>
  Lines 149 to 162, and again lines 175 to 187: the keys and the streams of the cache
  are collected in one pass over \<open>content_cache.items()\<close>, the streams are written as
  one batch, both result lists are extended and the cache is emptied.
\<close>

definition flush_cache :: "pack_writer \<Rightarrow> export_state \<Rightarrow> export_state" where
  "flush_cache w st =
     (let temp_old_hashkeys = map fst (dict_items (content_cache st));
          stream_list = map snd (dict_items (content_cache st))
      in case add_streamed_objects_to_pack w (output_container st) stream_list of
           (c, temp_new_hashkeys) \<Rightarrow>
             st\<lparr>output_container := c,
                old_obj_hashkeys := old_obj_hashkeys st @ temp_old_hashkeys,
                new_obj_hashkeys := new_obj_hashkeys st @ temp_new_hashkeys,
                content_cache := [],
                cache_size := 0\<rparr>)"

text \<open>
  Lines 164 and 165, and again lines 169 and 170: the content is read into the cache
  under the old key and the declared size is added to \<open>cache_size\<close>.
\<close>

definition buffer_object :: "export_state \<Rightarrow> triplet \<Rightarrow> export_state" where
  "buffer_object st t =
     st\<lparr>content_cache := dict_setitem (content_cache st) (old_obj_hashkey t) (stream t),
        cache_size := cache_size st + meta_size t\<rparr>"

text \<open>Lines 130 to 170: the body of the loop over the triplets.\<close>

definition process_triplet ::
  "int \<Rightarrow> pack_writer \<Rightarrow> export_state \<Rightarrow> triplet \<Rightarrow> error + export_state" where
  "process_triplet max_memory_usage w st t =
     (if meta_size t > max_memory_usage then direct_write w st t
      else if cache_size st + meta_size t > max_memory_usage
        then Inr (buffer_object (flush_cache w st) t)
      else Inr (buffer_object st t))"

text \<open>Line 129: the loop. An exception ends it.\<close>

fun process_triplets ::
  "int \<Rightarrow> pack_writer \<Rightarrow> export_state \<Rightarrow> triplet list \<Rightarrow> error + export_state" where
  "process_triplets max_memory_usage w st [] = Inr st"
| "process_triplets max_memory_usage w st (t # ts) =
     (case process_triplet max_memory_usage w st t of
        Inl e \<Rightarrow> Inl e
      | Inr st' \<Rightarrow> process_triplets max_memory_usage w st' ts)"

subsection \<open>One group, and the whole function\<close>

text \<open>
  Lines 125 to 190 for one group: the loop, the final flush, and
  \<open>dict(zip(old_obj_hashkeys, new_obj_hashkeys))\<close>. The result is the container and
  the value assigned to \<open>old_new_obj_hashkey_mapping\<close>.
\<close>

definition export_group ::
  "int \<Rightarrow> pack_writer \<Rightarrow> container \<Rightarrow> triplet list \<Rightarrow> error + (container \<times> hashkey pydict)" where
  "export_group max_memory_usage w c triplets =
     (case process_triplets max_memory_usage w (initial_state c) triplets of
        Inl e \<Rightarrow> Inl e
      | Inr st \<Rightarrow>
          (let st' = flush_cache w st
           in Inr (output_container st',
                   dict_from_pairs (zip (old_obj_hashkeys st') (new_obj_hashkeys st')))))"

text \<open>
  Line 117: the loop over the groups. \<open>old_new_obj_hashkey_mapping\<close> is a local
  variable that has no value before the first group has been processed (\<open>None\<close>),
  and every group assigns it anew.
\<close>

fun export_groups ::
  "int \<Rightarrow> pack_writer \<Rightarrow> container \<Rightarrow> hashkey pydict option \<Rightarrow> triplet list list \<Rightarrow>
     error + (container \<times> hashkey pydict option)" where
  "export_groups max_memory_usage w c mapping [] = Inr (c, mapping)"
| "export_groups max_memory_usage w c mapping (g # gs) =
     (case export_group max_memory_usage w c g of
        Inl e \<Rightarrow> Inl e
      | Inr (c', mapping') \<Rightarrow> export_groups max_memory_usage w c' (Some mapping') gs)"

text \<open>
  The function: a fresh container (lines 111 and 112), the loop, and the return of
  line 204, which raises \<open>UnboundLocalError\<close> when the mapping was never assigned.
\<close>

definition export_from_pack_grouped ::
  "int \<Rightarrow> pack_writer \<Rightarrow> triplet list list \<Rightarrow> error + (container \<times> hashkey pydict)" where
  "export_from_pack_grouped max_memory_usage w node_uuids_groups =
     (case export_groups max_memory_usage w \<lparr>packed = []\<rparr> None node_uuids_groups of
        Inl e \<Rightarrow> Inl e
      | Inr (c, None) \<Rightarrow> Inl UnboundLocalError
      | Inr (c, Some mapping) \<Rightarrow> Inr (c, mapping))"

subsection \<open>The states a group passes through\<close>

text \<open>
  The states of the local variables while the triplets of a group are processed: the
  state before each triplet, the state between the flush and the insertion when a
  triplet takes the second branch, and the state when the loop ends (or the last state
  before an exception).
\<close>

fun triplets_points ::
  "int \<Rightarrow> pack_writer \<Rightarrow> export_state \<Rightarrow> triplet list \<Rightarrow> export_state list" where
  "triplets_points max_memory_usage w st [] = [st]"
| "triplets_points max_memory_usage w st (t # ts) =
     st #
     (if \<not> meta_size t > max_memory_usage \<and> cache_size st + meta_size t > max_memory_usage
      then [flush_cache w st] else []) @
     (case process_triplet max_memory_usage w st t of
        Inl e \<Rightarrow> []
      | Inr st' \<Rightarrow> triplets_points max_memory_usage w st' ts)"

text \<open>The states of a whole group: those of the loop, then the state after the final flush.\<close>

definition group_points ::
  "int \<Rightarrow> pack_writer \<Rightarrow> container \<Rightarrow> triplet list \<Rightarrow> export_state list" where
  "group_points max_memory_usage w c triplets =
     triplets_points max_memory_usage w (initial_state c) triplets @
     (case process_triplets max_memory_usage w (initial_state c) triplets of
        Inl e \<Rightarrow> []
      | Inr st \<Rightarrow> [flush_cache w st])"

text \<open>The number of bytes held by the buffers of a cache.\<close>

definition cached_bytes :: "bytes pydict \<Rightarrow> int" where
  "cached_bytes d = sum_list (map (\<lambda>(k, b). int (length b)) (dict_items d))"

subsection \<open>Invariants of the loop\<close>

text \<open>
  The tracked size is within the budget, and every buffered item satisfies \<open>P\<close>.
\<close>

definition within_budget :: "int \<Rightarrow> (hashkey \<Rightarrow> bytes \<Rightarrow> bool) \<Rightarrow> export_state \<Rightarrow> bool" where
  "within_budget m P st \<longleftrightarrow>
     cache_size st \<le> m \<and> (\<forall>(k, b) \<in> set (content_cache st). P k b)"

text \<open>
  The keys of the triplets that go through the cache: those whose declared size does
  not exceed the budget, in the order of the group.
\<close>

definition buffered_keys :: "int \<Rightarrow> triplet list \<Rightarrow> hashkey list" where
  "buffered_keys max_memory_usage triplets =
     map old_obj_hashkey (filter (\<lambda>t. \<not> meta_size t > max_memory_usage) triplets)"

text \<open>
  The tracked size is the number of buffered bytes, and no key in the cache is among
  the keys \<open>later\<close> that are still to be buffered.
\<close>

definition size_tracked :: "hashkey set \<Rightarrow> export_state \<Rightarrow> bool" where
  "size_tracked later st \<longleftrightarrow>
     cache_size st = cached_bytes (content_cache st) \<and>
     fst ` set (content_cache st) \<inter> later = {}"

text \<open>
  Since the group started with container \<open>c\<close>, the container has received the
  batches \<open>bs\<close>; the new keys are the writer's answers to them, in order; the old
  keys stand in relation \<open>R\<close> with the streams written, position by position; and so
  do the key and the content of every cached item.
\<close>

definition positional ::
  "(hashkey \<Rightarrow> bytes \<Rightarrow> bool) \<Rightarrow> pack_writer \<Rightarrow> container \<Rightarrow> export_state \<Rightarrow> bool" where
  "positional R w c st \<longleftrightarrow>
     (\<exists>bs. packed (output_container st) = packed c @ bs \<and>
        new_obj_hashkeys st = concat (map w bs) \<and>
        list_all2 R (old_obj_hashkeys st) (concat bs)) \<and>
     (\<forall>(k, b) \<in> set (content_cache st). R k b)"

text \<open>
  From \<open>st\<close> to \<open>st'\<close> the container has only received further batches, and the two
  result lists have only been extended at their ends.
\<close>

definition grown :: "export_state \<Rightarrow> export_state \<Rightarrow> bool" where
  "grown st st' \<longleftrightarrow>
     (\<exists>bs os ns. packed (output_container st') = packed (output_container st) @ bs \<and>
        old_obj_hashkeys st' = old_obj_hashkeys st @ os \<and>
        new_obj_hashkeys st' = new_obj_hashkeys st @ ns)"

text \<open>
  The old keys written so far and the keys in the cache are pairwise distinct, and none
  of them is among the keys \<open>later\<close> of the triplets still to come.
\<close>

definition keys_fresh :: "hashkey set \<Rightarrow> export_state \<Rightarrow> bool" where
  "keys_fresh later st \<longleftrightarrow>
     distinct (old_obj_hashkeys st @ map fst (content_cache st)) \<and>
     set (old_obj_hashkeys st @ map fst (content_cache st)) \<inter> later = {}"

subsection \<open>A writer for concrete runs\<close>

text \<open>
  A stand-in for the container's writer, used where a run is evaluated on concrete
  data: the new key of a stream is its content behind the prefix \<open>new:\<close>.
\<close>

definition fake_pack_writer :: pack_writer where
  "fake_pack_writer stream_list = map (\<lambda>s. ''new:'' @ s) stream_list"

section \<open>Basic facts\<close>

lemmas step_defs = process_triplet_def direct_write_def flush_cache_def buffer_object_def
  add_streamed_objects_to_pack_def initial_state_def dict_items_def

lemmas run_defs = export_from_pack_grouped_def export_group_def group_points_def
  dict_from_pairs_def fake_pack_writer_def cached_bytes_def dict_get_def

subsection \<open>Dictionary assignment\<close>

lemma set_dict_setitem: "set (dict_setitem d k v) \<subseteq> insert (k, v) (set d)"
  by (induction d k v rule: dict_setitem.induct) auto

lemma dict_setitem_fresh: "k \<notin> fst ` set d \<Longrightarrow> dict_setitem d k v = d @ [(k, v)]"
  by (induction d k v rule: dict_setitem.induct) auto

lemma keys_dict_setitem: "fst ` set (dict_setitem d k v) = insert k (fst ` set d)"
  by (induction d k v rule: dict_setitem.induct) auto

lemma dict_setitem_not_empty: "dict_setitem d k v \<noteq> []"
  by (cases d) (auto split: if_splits)

lemma map_of_dict_setitem: "map_of (dict_setitem d k v) = (map_of d)(k \<mapsto> v)"
  by (induction d k v rule: dict_setitem.induct) (auto simp: fun_eq_iff)

subsection \<open>What each branch does to the cache\<close>

lemma flush_cache_cache [simp]:
  "cache_size (flush_cache w st) = 0" "content_cache (flush_cache w st) = []"
  by (simp_all add: flush_cache_def add_streamed_objects_to_pack_def Let_def)

lemma buffer_object_cache [simp]:
  "cache_size (buffer_object st t) = cache_size st + meta_size t"
  "content_cache (buffer_object st t) =
     dict_setitem (content_cache st) (old_obj_hashkey t) (stream t)"
  by (simp_all add: buffer_object_def)

lemma direct_write_cache:
  "direct_write w st t = Inr st' \<Longrightarrow>
     cache_size st' = cache_size st \<and> content_cache st' = content_cache st"
  by (auto simp: direct_write_def add_streamed_objects_to_pack_def split: list.splits)

lemma small_triplet_cases:
  assumes "\<not> meta_size t > m" and "process_triplet m w st t = Inr st'"
  shows "st' = buffer_object (flush_cache w st) t \<or> st' = buffer_object st t"
  using assms by (auto simp: process_triplet_def split: if_splits)

lemma flush_changes_container: "buffer_object (flush_cache w st) t \<noteq> buffer_object st t"
proof
  assume "buffer_object (flush_cache w st) t = buffer_object st t"
  then have "packed (output_container (buffer_object (flush_cache w st) t)) =
      packed (output_container (buffer_object st t))"
    by simp
  then show False
    by (simp add: buffer_object_def flush_cache_def add_streamed_objects_to_pack_def Let_def)
qed

subsection \<open>The listed states cover the run\<close>

text \<open>
  Every state the loop is in after some number of triplets is among the listed states
  of the group, and so is the state after the final flush.
\<close>

lemma triplets_points_prefix:
  assumes "process_triplets m w st (take n ts) = Inr s"
  shows "s \<in> set (triplets_points m w st ts)"
  using assms
proof (induction ts arbitrary: st n)
  case Nil
  then show ?case by simp
next
  case (Cons t ts)
  show ?case
  proof (cases n)
    case 0
    with Cons.prems show ?thesis by simp
  next
    case (Suc k)
    with Cons.prems obtain st1 where step: "process_triplet m w st t = Inr st1"
      and rest: "process_triplets m w st1 (take k ts) = Inr s"
      by (auto split: sum.splits)
    from Cons.IH [OF rest] step show ?thesis by simp
  qed
qed

lemma group_points_prefix:
  assumes "process_triplets m w (initial_state c) (take n ts) = Inr s"
  shows "s \<in> set (group_points m w c ts)"
  using triplets_points_prefix [OF assms] by (simp add: group_points_def)

lemma group_points_final:
  assumes "process_triplets m w (initial_state c) ts = Inr s"
  shows "flush_cache w s \<in> set (group_points m w c ts)"
  using assms by (simp add: group_points_def)

subsection \<open>The budget invariant\<close>

lemma within_budget_flush: "0 \<le> m \<Longrightarrow> within_budget m P (flush_cache w st)"
  by (simp add: within_budget_def)

lemma within_budget_step:
  assumes "within_budget m P st" and "0 \<le> m"
    and "\<not> meta_size t > m \<Longrightarrow> P (old_obj_hashkey t) (stream t)"
    and "process_triplet m w st t = Inr st'"
  shows "within_budget m P st'"
proof (cases "meta_size t > m")
  case True
  with assms(4) have "direct_write w st t = Inr st'" by (simp add: process_triplet_def)
  from direct_write_cache [OF this] assms(1) show ?thesis by (simp add: within_budget_def)
next
  case False
  note small = this
  show ?thesis
  proof (cases "cache_size st + meta_size t > m")
    case True
    with small assms(4) have st': "st' = buffer_object (flush_cache w st) t"
      by (simp add: process_triplet_def)
    from small assms(3) show ?thesis by (simp add: st' within_budget_def)
  next
    case False
    with small assms(4) have st': "st' = buffer_object st t"
      by (simp add: process_triplet_def)
    have "set (content_cache st') \<subseteq> insert (old_obj_hashkey t, stream t) (set (content_cache st))"
      by (simp add: st' set_dict_setitem)
    with assms(1) assms(3) small False show ?thesis
      by (auto simp: st' within_budget_def)
  qed
qed

lemma within_budget_points:
  assumes "within_budget m P st" and "0 \<le> m"
    and "\<forall>t \<in> set ts. \<not> meta_size t > m \<longrightarrow> P (old_obj_hashkey t) (stream t)"
  shows "\<forall>s \<in> set (triplets_points m w st ts). within_budget m P s"
  using assms
proof (induction ts arbitrary: st)
  case Nil
  then show ?case by simp
next
  case (Cons t ts)
  show ?case
  proof (cases "process_triplet m w st t")
    case (Inl e)
    with Cons.prems show ?thesis by (auto simp: within_budget_flush)
  next
    case (Inr st')
    from Cons.prems have "within_budget m P st'"
      by (intro within_budget_step [OF _ _ _ Inr]) auto
    with Cons.prems have "\<forall>s \<in> set (triplets_points m w st' ts). within_budget m P s"
      by (intro Cons.IH) auto
    with Inr Cons.prems show ?thesis by (auto simp: within_budget_flush)
  qed
qed

subsection \<open>An empty cache has tracked size zero\<close>

lemma empty_cache_size_step:
  assumes "content_cache st = [] \<longrightarrow> cache_size st = 0"
    and "process_triplet m w st t = Inr st'"
  shows "content_cache st' = [] \<longrightarrow> cache_size st' = 0"
proof (cases "meta_size t > m")
  case True
  with assms(2) have "direct_write w st t = Inr st'" by (simp add: process_triplet_def)
  from direct_write_cache [OF this] assms(1) show ?thesis by simp
next
  case False
  from small_triplet_cases [OF this assms(2)] show ?thesis
    by (auto simp: dict_setitem_not_empty)
qed

lemma empty_cache_size_points:
  assumes "content_cache st = [] \<longrightarrow> cache_size st = 0"
  shows "\<forall>s \<in> set (triplets_points m w st ts). content_cache s = [] \<longrightarrow> cache_size s = 0"
  using assms
proof (induction ts arbitrary: st)
  case Nil
  then show ?case by simp
next
  case (Cons t ts)
  show ?case
  proof (cases "process_triplet m w st t")
    case (Inl e)
    with Cons.prems show ?thesis by auto
  next
    case (Inr st')
    from empty_cache_size_step [OF Cons.prems Inr]
    have "\<forall>s \<in> set (triplets_points m w st' ts). content_cache s = [] \<longrightarrow> cache_size s = 0"
      by (rule Cons.IH)
    with Inr Cons.prems show ?thesis by auto
  qed
qed

lemma empty_cache_size_group:
  assumes "st \<in> set (group_points m w c ts)" and "content_cache st = []"
  shows "cache_size st = 0"
proof -
  have "content_cache (initial_state c) = [] \<longrightarrow> cache_size (initial_state c) = 0"
    by (simp add: initial_state_def)
  from empty_cache_size_points [OF this] assms show ?thesis
    by (auto simp: group_points_def split: sum.splits)
qed

subsection \<open>The tracked size and the buffered bytes\<close>

lemma cached_bytes_append [simp]:
  "cached_bytes (d @ [(k, b)]) = cached_bytes d + int (length b)"
  by (simp add: cached_bytes_def dict_items_def)

lemma cached_bytes_empty [simp]: "cached_bytes [] = 0"
  by (simp add: cached_bytes_def dict_items_def)

lemma size_tracked_flush: "size_tracked later (flush_cache w st)"
  by (simp add: size_tracked_def)

lemma size_tracked_buffer:
  assumes "size_tracked (insert (old_obj_hashkey t) later) st"
    and "meta_size t = int (length (stream t))"
    and "old_obj_hashkey t \<notin> later"
  shows "size_tracked later (buffer_object st t)"
proof -
  from assms(1) have fresh: "old_obj_hashkey t \<notin> fst ` set (content_cache st)"
    by (auto simp: size_tracked_def)
  then have "content_cache (buffer_object st t) =
      content_cache st @ [(old_obj_hashkey t, stream t)]"
    by (simp add: dict_setitem_fresh)
  with assms show ?thesis
    by (auto simp: size_tracked_def)
qed

lemma size_tracked_step:
  assumes "size_tracked (set (buffered_keys m (t # ts))) st"
    and "distinct (buffered_keys m (t # ts))"
    and "meta_size t = int (length (stream t))"
    and "process_triplet m w st t = Inr st'"
  shows "size_tracked (set (buffered_keys m ts)) st'"
proof (cases "meta_size t > m")
  case True
  with assms(4) have "direct_write w st t = Inr st'" by (simp add: process_triplet_def)
  from direct_write_cache [OF this] assms(1) True show ?thesis
    by (simp add: size_tracked_def buffered_keys_def)
next
  case False
  with assms(1) have here: "size_tracked (insert (old_obj_hashkey t) (set (buffered_keys m ts))) st"
    by (simp add: buffered_keys_def)
  from False assms(2) have fresh: "old_obj_hashkey t \<notin> set (buffered_keys m ts)"
    by (simp add: buffered_keys_def)
  have "size_tracked (insert (old_obj_hashkey t) (set (buffered_keys m ts))) (flush_cache w st)"
    by (rule size_tracked_flush)
  with here small_triplet_cases [OF False assms(4)] assms(3) fresh show ?thesis
    by (auto intro: size_tracked_buffer)
qed

lemma size_tracked_points:
  assumes "size_tracked (set (buffered_keys m ts)) st"
    and "distinct (buffered_keys m ts)"
    and "\<forall>t \<in> set ts. meta_size t = int (length (stream t))"
  shows "\<forall>s \<in> set (triplets_points m w st ts). cache_size s = cached_bytes (content_cache s)"
  using assms
proof (induction ts arbitrary: st)
  case Nil
  then show ?case by (simp add: size_tracked_def)
next
  case (Cons t ts)
  from Cons.prems(1) have here: "cache_size st = cached_bytes (content_cache st)"
    by (simp add: size_tracked_def)
  show ?case
  proof (cases "process_triplet m w st t")
    case (Inl e)
    with here show ?thesis by auto
  next
    case (Inr st')
    from Cons.prems have "size_tracked (set (buffered_keys m ts)) st'"
      by (intro size_tracked_step [OF _ _ _ Inr]) auto
    moreover from Cons.prems(2) have "distinct (buffered_keys m ts)"
      by (auto simp: buffered_keys_def split: if_splits)
    ultimately have "\<forall>s \<in> set (triplets_points m w st' ts).
        cache_size s = cached_bytes (content_cache s)"
      using Cons.prems(3) by (intro Cons.IH) auto
    with Inr here show ?thesis by auto
  qed
qed

subsection \<open>Building a dictionary from pairs\<close>

lemma map_of_dict_update_pairs:
  "map_of (dict_update_pairs d ps) k =
     (case map_of (rev ps) k of Some v \<Rightarrow> Some v | None \<Rightarrow> map_of d k)"
proof (induction ps arbitrary: d)
  case Nil
  then show ?case by simp
next
  case (Cons p ps)
  obtain k' v' where p: "p = (k', v')" by (cases p)
  show ?case
    by (simp add: p Cons.IH map_of_dict_setitem map_add_def split: option.splits)
qed

lemma dict_get_from_pairs: "dict_get (dict_from_pairs ps) k = map_of (rev ps) k"
  by (simp add: dict_get_def dict_from_pairs_def map_of_dict_update_pairs split: option.splits)

lemma distinct_dict_setitem:
  "distinct (map fst d) \<Longrightarrow> distinct (map fst (dict_setitem d k v))"
proof (induction d k v rule: dict_setitem.induct)
  case (1 k v)
  then show ?case by simp
next
  case (2 k' v' d k v)
  then show ?case using keys_dict_setitem [of d k v] by (auto simp: image_iff)
qed

lemma distinct_dict_update_pairs:
  "distinct (map fst d) \<Longrightarrow> distinct (map fst (dict_update_pairs d ps))"
  by (induction d ps rule: dict_update_pairs.induct) (auto simp: distinct_dict_setitem)

text \<open>With distinct keys, the entry of the i-th key is the i-th value.\<close>

lemma dict_get_zip_nth:
  assumes "distinct olds" and "length news = length olds" and "i < length olds"
  shows "dict_get (dict_from_pairs (zip olds news)) (olds ! i) = Some (news ! i)"
proof -
  have "distinct (map fst (zip olds news))"
    using assms(1,2) by (simp add: map_fst_zip)
  then have keys: "distinct (map fst (rev (zip olds news)))"
    by (simp add: rev_map [symmetric])
  have "(olds ! i, news ! i) \<in> set (rev (zip olds news))"
    using assms(2,3) by (auto simp: set_zip)
  with keys have "map_of (rev (zip olds news)) (olds ! i) = Some (news ! i)"
    by (simp only: map_of_eq_Some_iff)
  then show ?thesis by (simp add: dict_get_from_pairs)
qed

subsection \<open>When the function returns\<close>

lemma process_triplets_no_error:
  assumes "\<forall>s. w [s] \<noteq> []"
  shows "\<exists>st'. process_triplets m w st ts = Inr st'"
proof (induction ts arbitrary: st)
  case Nil
  then show ?case by simp
next
  case (Cons t ts)
  from assms obtain h hs where "w [stream t] = h # hs"
    by (cases "w [stream t]") auto
  then have "\<exists>st1. process_triplet m w st t = Inr st1"
    by (simp add: process_triplet_def direct_write_def add_streamed_objects_to_pack_def)
  then obtain st1 where "process_triplet m w st t = Inr st1" ..
  with Cons.IH [of st1] show ?case by simp
qed

lemma export_group_no_error:
  assumes "\<forall>s. w [s] \<noteq> []"
  shows "\<exists>c' mp. export_group m w c ts = Inr (c', mp)"
  using process_triplets_no_error [OF assms, of m "initial_state c" ts]
  by (auto simp: export_group_def Let_def)

lemma export_groups_no_error:
  assumes "\<forall>s. w [s] \<noteq> []"
  shows "\<exists>c' mp'. export_groups m w c mp gs = Inr (c', if gs = [] then mp else Some mp')"
proof (induction gs arbitrary: c mp)
  case Nil
  then show ?case by simp
next
  case (Cons g gs)
  from export_group_no_error [OF assms, of m c g]
  obtain c1 mp1 where g: "export_group m w c g = Inr (c1, mp1)" by blast
  from Cons.IH [of c1 "Some mp1"] g show ?case by (cases "gs = []") auto
qed

text \<open>The mapping in hand after the last group is the one that group assigned.\<close>

lemma export_groups_last:
  "export_groups m w c mp (gs @ [g]) =
     (case export_groups m w c mp gs of
        Inl e \<Rightarrow> Inl e
      | Inr (c', mp') \<Rightarrow>
          (case export_group m w c' g of
             Inl e \<Rightarrow> Inl e
           | Inr (c'', mapping) \<Rightarrow> Inr (c'', Some mapping)))"
  by (induction gs arbitrary: c mp) (auto split: sum.splits)

subsection \<open>Old keys, written streams and new keys, position by position\<close>

lemma positional_initial: "positional R w c (initial_state c)"
  by (simp add: positional_def initial_state_def)

lemma list_all2_items:
  assumes "\<forall>(k, b) \<in> set d. R k b"
  shows "list_all2 R (map fst d) (map snd d)"
  using assms by (induction d) auto

lemma positional_flush:
  assumes "positional R w c st"
  shows "positional R w c (flush_cache w st)"
proof -
  from assms obtain bs where bs: "packed (output_container st) = packed c @ bs"
      "new_obj_hashkeys st = concat (map w bs)"
      "list_all2 R (old_obj_hashkeys st) (concat bs)"
    and cache: "\<forall>(k, b) \<in> set (content_cache st). R k b"
    by (auto simp: positional_def)
  let ?batch = "map snd (content_cache st)"
  have "packed (output_container (flush_cache w st)) = packed c @ (bs @ [?batch])"
    by (simp add: flush_cache_def add_streamed_objects_to_pack_def dict_items_def Let_def bs(1))
  moreover have "new_obj_hashkeys (flush_cache w st) = concat (map w (bs @ [?batch]))"
    by (simp add: flush_cache_def add_streamed_objects_to_pack_def dict_items_def Let_def bs(2))
  moreover have "list_all2 R (old_obj_hashkeys (flush_cache w st)) (concat (bs @ [?batch]))"
    using bs(3) list_all2_items [OF cache]
    by (simp add: flush_cache_def add_streamed_objects_to_pack_def dict_items_def Let_def
        list_all2_appendI)
  ultimately show ?thesis
    unfolding positional_def by (intro conjI exI [of _ "bs @ [?batch]"]) simp_all
qed

lemma positional_buffer:
  assumes "positional R w c st" and "R (old_obj_hashkey t) (stream t)"
  shows "positional R w c (buffer_object st t)"
proof -
  have "set (content_cache (buffer_object st t)) \<subseteq>
      insert (old_obj_hashkey t, stream t) (set (content_cache st))"
    by (simp add: set_dict_setitem)
  with assms show ?thesis
    by (auto simp: positional_def buffer_object_def)
qed

lemma positional_direct:
  assumes "positional R w c st" and "R (old_obj_hashkey t) (stream t)"
    and "length (w [stream t]) = 1"
    and "direct_write w st t = Inr st'"
  shows "positional R w c st'"
proof -
  from assms(1) obtain bs where bs: "packed (output_container st) = packed c @ bs"
      "new_obj_hashkeys st = concat (map w bs)"
      "list_all2 R (old_obj_hashkeys st) (concat bs)"
    and cache: "\<forall>(k, b) \<in> set (content_cache st). R k b"
    by (auto simp: positional_def)
  from assms(3) obtain h where h: "w [stream t] = [h]"
    by (cases "w [stream t]") auto
  with assms(4) have st': "st' = st\<lparr>output_container :=
        (output_container st)\<lparr>packed := packed (output_container st) @ [[stream t]]\<rparr>,
      old_obj_hashkeys := old_obj_hashkeys st @ [old_obj_hashkey t],
      new_obj_hashkeys := new_obj_hashkeys st @ [h]\<rparr>"
    by (simp add: direct_write_def add_streamed_objects_to_pack_def)
  have "packed (output_container st') = packed c @ (bs @ [[stream t]])"
    by (simp add: st' bs(1))
  moreover have "new_obj_hashkeys st' = concat (map w (bs @ [[stream t]]))"
    by (simp add: st' bs(2) h)
  moreover have "list_all2 R (old_obj_hashkeys st') (concat (bs @ [[stream t]]))"
    using bs(3) assms(2) by (simp add: st' list_all2_appendI)
  moreover have "content_cache st' = content_cache st"
    by (simp add: st')
  ultimately show ?thesis
    unfolding positional_def using cache
    by (intro conjI exI [of _ "bs @ [[stream t]]"]) simp_all
qed

lemma positional_step:
  assumes "positional R w c st" and "R (old_obj_hashkey t) (stream t)"
    and "length (w [stream t]) = 1"
    and "process_triplet m w st t = Inr st'"
  shows "positional R w c st'"
proof (cases "meta_size t > m")
  case True
  with assms(4) have "direct_write w st t = Inr st'" by (simp add: process_triplet_def)
  from positional_direct [OF assms(1-3) this] show ?thesis .
next
  case False
  from small_triplet_cases [OF False assms(4)] assms(1,2) show ?thesis
    by (auto intro: positional_buffer positional_flush)
qed

lemma positional_loop:
  assumes "positional R w c st" and "\<forall>t \<in> set ts. R (old_obj_hashkey t) (stream t)"
    and "\<forall>ss. length (w ss) = length ss"
    and "process_triplets m w st ts = Inr st'"
  shows "positional R w c st'"
  using assms(1,2,4)
proof (induction ts arbitrary: st)
  case Nil
  then show ?case by simp
next
  case (Cons t ts)
  from Cons.prems(3) obtain st1 where step: "process_triplet m w st t = Inr st1"
    and rest: "process_triplets m w st1 ts = Inr st'"
    by (auto split: sum.splits)
  from assms(3) have "length (w [stream t]) = 1" by simp
  with Cons.prems(1,2) step have "positional R w c st1"
    by (intro positional_step [OF _ _ _ step]) auto
  from Cons.IH [OF this _ rest] Cons.prems(2) show ?case by simp
qed

lemma length_concat_writer:
  assumes "\<forall>ss. length (w ss) = length ss"
  shows "length (concat (map w bs)) = length (concat bs)"
  using assms by (induction bs) auto

subsection \<open>Runs in parts, and what a run only adds to\<close>

lemma process_triplets_append:
  "process_triplets m w st (xs @ ys) =
     (case process_triplets m w st xs of
        Inl e \<Rightarrow> Inl e
      | Inr s \<Rightarrow> process_triplets m w s ys)"
  by (induction xs arbitrary: st) (auto split: sum.splits)

lemma export_groups_append:
  "export_groups m w c mp (xs @ ys) =
     (case export_groups m w c mp xs of
        Inl e \<Rightarrow> Inl e
      | Inr (c', mp') \<Rightarrow> export_groups m w c' mp' ys)"
  by (induction xs arbitrary: c mp) (auto split: sum.splits)

lemma grown_refl: "grown st st"
  by (simp add: grown_def)

lemma grown_trans: "grown a b \<Longrightarrow> grown b c \<Longrightarrow> grown a c"
  by (auto simp: grown_def)

lemma grown_flush: "grown st (flush_cache w st)"
  by (simp add: grown_def flush_cache_def add_streamed_objects_to_pack_def Let_def)

lemma grown_buffer: "grown st (buffer_object st t)"
  by (simp add: grown_def buffer_object_def)

lemma grown_step:
  assumes "process_triplet m w st t = Inr st'"
  shows "grown st st'"
proof (cases "meta_size t > m")
  case True
  with assms show ?thesis
    by (auto simp: process_triplet_def direct_write_def add_streamed_objects_to_pack_def
        grown_def split: list.splits)
next
  case False
  from small_triplet_cases [OF False assms] show ?thesis
    by (auto intro: grown_buffer grown_trans [OF grown_flush grown_buffer])
qed

lemma grown_loop:
  assumes "process_triplets m w st ts = Inr st'"
  shows "grown st st'"
  using assms
proof (induction ts arbitrary: st)
  case Nil
  then show ?case by (simp add: grown_refl)
next
  case (Cons t ts)
  from Cons.prems obtain st1 where step: "process_triplet m w st t = Inr st1"
    and rest: "process_triplets m w st1 ts = Inr st'"
    by (auto split: sum.splits)
  from grown_step [OF step] Cons.IH [OF rest] show ?case by (rule grown_trans)
qed

lemma export_group_packed:
  assumes "export_group m w c g = Inr (c', mp)"
  shows "\<exists>bs. packed c' = packed c @ bs"
proof -
  from assms obtain st where run: "process_triplets m w (initial_state c) g = Inr st"
    and c': "c' = output_container (flush_cache w st)"
    by (auto simp: export_group_def Let_def split: sum.splits)
  from grown_loop [OF run] grown_flush [of st w] have "grown (initial_state c) (flush_cache w st)"
    by (rule grown_trans)
  then show ?thesis by (auto simp: grown_def c' initial_state_def)
qed

lemma export_groups_packed:
  assumes "export_groups m w c mp gs = Inr (c', mp')"
  shows "\<exists>bs. packed c' = packed c @ bs"
  using assms
proof (induction gs arbitrary: c mp)
  case Nil
  then show ?case by simp
next
  case (Cons g gs)
  from Cons.prems obtain c1 mp1 where g: "export_group m w c g = Inr (c1, mp1)"
    and rest: "export_groups m w c1 (Some mp1) gs = Inr (c', mp')"
    by (auto split: sum.splits)
  from export_group_packed [OF g] Cons.IH [OF rest] show ?case by auto
qed

lemma keys_fresh_step:
  assumes "keys_fresh (set (map old_obj_hashkey (t # ts))) st"
    and "distinct (map old_obj_hashkey (t # ts))"
    and "process_triplet m w st t = Inr st'"
  shows "keys_fresh (set (map old_obj_hashkey ts)) st'"
proof (cases "meta_size t > m")
  case True
  with assms(3) obtain h where "old_obj_hashkeys st' = old_obj_hashkeys st @ [old_obj_hashkey t]"
    and "content_cache st' = content_cache st"
    by (auto simp: process_triplet_def direct_write_def add_streamed_objects_to_pack_def
        split: list.splits)
  with assms(1,2) show ?thesis by (auto simp: keys_fresh_def)
next
  case False
  from assms(1) have fresh: "old_obj_hashkey t \<notin> fst ` set (content_cache st)"
    by (auto simp: keys_fresh_def)
  have flushed: "old_obj_hashkeys (flush_cache w st) =
      old_obj_hashkeys st @ map fst (content_cache st)"
    by (simp add: flush_cache_def add_streamed_objects_to_pack_def Let_def dict_items_def)
  from small_triplet_cases [OF False assms(3)] show ?thesis
  proof
    assume st': "st' = buffer_object (flush_cache w st) t"
    with assms(1,2) flushed show ?thesis
      by (auto simp: keys_fresh_def buffer_object_def)
  next
    assume st': "st' = buffer_object st t"
    with assms(1,2) fresh show ?thesis
      by (auto simp: keys_fresh_def buffer_object_def dict_setitem_fresh)
  qed
qed

lemma keys_fresh_loop:
  assumes "keys_fresh (set (map old_obj_hashkey ts)) st"
    and "distinct (map old_obj_hashkey ts)"
    and "process_triplets m w st ts = Inr st'"
  shows "distinct (old_obj_hashkeys st' @ map fst (content_cache st'))"
  using assms
proof (induction ts arbitrary: st)
  case Nil
  then show ?case by (simp add: keys_fresh_def)
next
  case (Cons t ts)
  from Cons.prems(3) obtain st1 where step: "process_triplet m w st t = Inr st1"
    and rest: "process_triplets m w st1 ts = Inr st'"
    by (auto split: sum.splits)
  from keys_fresh_step [OF Cons.prems(1,2) step] Cons.prems(2) rest show ?case
    by (intro Cons.IH) auto
qed

lemma distinct_old_keys_of_group:
  assumes "distinct (map old_obj_hashkey g)"
    and "process_triplets m w (initial_state c) g = Inr st"
  shows "distinct (old_obj_hashkeys (flush_cache w st))"
proof -
  have "keys_fresh (set (map old_obj_hashkey g)) (initial_state c)"
    by (simp add: keys_fresh_def initial_state_def)
  from keys_fresh_loop [OF this assms]
  show ?thesis
    by (simp add: flush_cache_def add_streamed_objects_to_pack_def Let_def dict_items_def)
qed

lemma aligned_lists:
  assumes "\<forall>ss. length (w ss) = length ss"
    and "process_triplets m w (initial_state c) ts = Inr st"
  shows "length (new_obj_hashkeys st) = length (old_obj_hashkeys st)"
    and "length (new_obj_hashkeys (flush_cache w st)) = length (old_obj_hashkeys (flush_cache w st))"
proof -
  have p: "positional (\<lambda>k s. True) w c st"
    by (rule positional_loop [OF positional_initial _ assms]) auto
  then obtain bs where "new_obj_hashkeys st = concat (map w bs)"
      "list_all2 (\<lambda>k s. True) (old_obj_hashkeys st) (concat bs)"
    by (auto simp: positional_def)
  with length_concat_writer [OF assms(1), of bs]
  show "length (new_obj_hashkeys st) = length (old_obj_hashkeys st)"
    by (auto dest: list_all2_lengthD)
  from positional_flush [OF p] obtain bs' where
      "new_obj_hashkeys (flush_cache w st) = concat (map w bs')"
      "list_all2 (\<lambda>k s. True) (old_obj_hashkeys (flush_cache w st)) (concat bs')"
    by (auto simp: positional_def)
  with length_concat_writer [OF assms(1), of bs']
  show "length (new_obj_hashkeys (flush_cache w st)) = length (old_obj_hashkeys (flush_cache w st))"
    by (auto dest: list_all2_lengthD)
qed

lemma dict_get_from_pairs_present:
  assumes "(k, v) \<in> set ps"
  shows "dict_get (dict_from_pairs ps) k \<noteq> None"
proof -
  from assms have "k \<in> fst ` set (rev ps)" by force
  then show ?thesis by (simp add: dict_get_from_pairs map_of_eq_None_iff)
qed


lemma direct_write_step:
  assumes "meta_size t > m" and "w [stream t] = h # hs"
  shows "process_triplet m w st t =
     Inr (st\<lparr>output_container :=
              (output_container st)\<lparr>packed := packed (output_container st) @ [[stream t]]\<rparr>,
            old_obj_hashkeys := old_obj_hashkeys st @ [old_obj_hashkey t],
            new_obj_hashkeys := new_obj_hashkeys st @ [h]\<rparr>)"
  using assms
  by (simp add: process_triplet_def direct_write_def add_streamed_objects_to_pack_def)

section \<open>Properties\<close>

text \<open>
  C1. The claim is that the mapping returned at the end has an entry for every old
  identifier of every group. The code assigns \<open>old_new_obj_hashkey_mapping\<close> anew in
  every group (line 189) and returns the last value (line 204). For the two groups
  \<open>[A]\<close> and \<open>[B]\<close> both objects are written to the container, and the mapping
  returned holds \<open>B\<close> only: there is no entry for \<open>A\<close>.
\<close>

theorem two_groups_mapping_lacks_first_group:
  "export_from_pack_grouped 100 fake_pack_writer
     [[\<lparr>old_obj_hashkey = ''A'', stream = ''a'', meta_size = 1\<rparr>],
      [\<lparr>old_obj_hashkey = ''B'', stream = ''b'', meta_size = 1\<rparr>]] =
   Inr (\<lparr>packed = [[''a''], [''b'']]\<rparr>, [(''B'', ''new:b'')])
   \<and> dict_get [(''B'', ''new:b'')] ''A'' = None"
  by (simp add: run_defs step_defs Let_def)

text \<open>
  C2. With a memory budget greater than zero, in every state a group passes through
  the tracked size \<open>cache_size\<close> is at most \<open>max_memory_usage\<close>, and every item in
  the cache is the key and the content of a triplet of the group whose declared size
  does not exceed the budget: an object larger than the budget is never put into the
  cache.
\<close>

theorem cache_size_never_exceeds_budget:
  assumes "0 < max_memory_usage"
    and "st \<in> set (group_points max_memory_usage w c triplets)"
  shows "cache_size st \<le> max_memory_usage \<and>
     (\<forall>(k, b) \<in> set (content_cache st).
        \<exists>t \<in> set triplets. old_obj_hashkey t = k \<and> stream t = b \<and>
          \<not> meta_size t > max_memory_usage)"
proof -
  let ?P = "\<lambda>k b. \<exists>t \<in> set triplets. old_obj_hashkey t = k \<and> stream t = b \<and>
          \<not> meta_size t > max_memory_usage"
  have init: "within_budget max_memory_usage ?P (initial_state c)"
    using assms(1) by (simp add: within_budget_def initial_state_def)
  have "\<forall>s \<in> set (triplets_points max_memory_usage w (initial_state c) triplets).
          within_budget max_memory_usage ?P s"
    using assms(1) by (intro within_budget_points [OF init]) auto
  moreover have "within_budget max_memory_usage ?P (flush_cache w s)" for s
    using assms(1) by (simp add: within_budget_flush)
  ultimately have "within_budget max_memory_usage ?P st"
    using assms(2) by (auto simp: group_points_def split: sum.splits)
  then show ?thesis by (simp add: within_budget_def)
qed

text \<open>
  The theorem at budget 10, for the group A (3 bytes), B (3 bytes), C (5 bytes),
  X (12 bytes), in the state reached after A and B: the tracked size is 6, and the
  two cached objects are within the budget.
\<close>

theorem cache_size_never_exceeds_budget_witness:
  "\<lparr>output_container = \<lparr>packed = []\<rparr>, old_obj_hashkeys = [], new_obj_hashkeys = [],
     content_cache = [(''A'', ''aaa''), (''B'', ''bbb'')], cache_size = 6\<rparr>
   \<in> set (group_points 10 fake_pack_writer \<lparr>packed = []\<rparr>
       [\<lparr>old_obj_hashkey = ''A'', stream = ''aaa'', meta_size = 3\<rparr>,
        \<lparr>old_obj_hashkey = ''B'', stream = ''bbb'', meta_size = 3\<rparr>,
        \<lparr>old_obj_hashkey = ''C'', stream = ''ccccc'', meta_size = 5\<rparr>,
        \<lparr>old_obj_hashkey = ''X'', stream = ''xxxxxxxxxxxx'', meta_size = 12\<rparr>])
   \<and> cache_size \<lparr>output_container = \<lparr>packed = []\<rparr>, old_obj_hashkeys = [],
        new_obj_hashkeys = [],
        content_cache = [(''A'', ''aaa''), (''B'', ''bbb'')], cache_size = 6\<rparr> \<le> 10
   \<and> \<not> meta_size \<lparr>old_obj_hashkey = ''A'', stream = ''aaa'', meta_size = 3\<rparr> > 10
   \<and> \<not> meta_size \<lparr>old_obj_hashkey = ''B'', stream = ''bbb'', meta_size = 3\<rparr> > 10"
proof -
  let ?st = "\<lparr>output_container = \<lparr>packed = []\<rparr>, old_obj_hashkeys = [],
     new_obj_hashkeys = [],
     content_cache = [(''A'', ''aaa''), (''B'', ''bbb'')], cache_size = 6\<rparr>"
  let ?ts = "[\<lparr>old_obj_hashkey = ''A'', stream = ''aaa'', meta_size = 3\<rparr>,
        \<lparr>old_obj_hashkey = ''B'', stream = ''bbb'', meta_size = 3\<rparr>,
        \<lparr>old_obj_hashkey = ''C'', stream = ''ccccc'', meta_size = 5\<rparr>,
        \<lparr>old_obj_hashkey = ''X'', stream = ''xxxxxxxxxxxx'', meta_size = 12\<rparr>]"
  have budget: "(0::int) < 10" by simp
  have point: "?st \<in> set (group_points 10 fake_pack_writer \<lparr>packed = []\<rparr> ?ts)"
    by (simp add: group_points_def step_defs Let_def)
  from cache_size_never_exceeds_budget [OF budget point] point show ?thesis by simp
qed

text \<open>
  C3, as the code has it. A group without triplets makes one call of the writer, the
  final flush, with the empty list of streams, and the mapping assigned for the group
  is empty, whatever the writer returns for the empty list.
\<close>

theorem empty_group_writes_one_empty_batch:
  "export_group max_memory_usage w c [] = Inr (c\<lparr>packed := packed c @ [[]]\<rparr>, []) \<and>
   export_from_pack_grouped max_memory_usage w [[]] = Inr (\<lparr>packed = [[]]\<rparr>, [])"
  by (simp add: export_from_pack_grouped_def export_group_def step_defs Let_def
      dict_from_pairs_def)

text \<open>
  C3 as stated fails: for the single empty group the container has received one call,
  not zero.
\<close>

theorem empty_group_zero_calls_counterexample:
  "export_from_pack_grouped 100 fake_pack_writer [[]] = Inr (\<lparr>packed = [[]]\<rparr>, []) \<and>
   length (packed \<lparr>packed = [[]]\<rparr>) = 1"
  by (simp add: export_from_pack_grouped_def export_group_def step_defs Let_def
      dict_from_pairs_def)

text \<open>
  C4, as the code has it. When the keys of the triplets that go through the cache are
  pairwise distinct, and every declared size is the length of the stream's content,
  the tracked size equals the number of bytes held by the cache in every state the
  group passes through.
\<close>

theorem cache_size_is_buffered_bytes:
  assumes "distinct (buffered_keys max_memory_usage triplets)"
    and "\<forall>t \<in> set triplets. meta_size t = int (length (stream t))"
    and "st \<in> set (group_points max_memory_usage w c triplets)"
  shows "cache_size st = cached_bytes (content_cache st)"
proof -
  have "size_tracked (set (buffered_keys max_memory_usage triplets)) (initial_state c)"
    by (simp add: size_tracked_def initial_state_def)
  from size_tracked_points [OF this assms(1,2)]
  have "\<forall>s \<in> set (triplets_points max_memory_usage w (initial_state c) triplets).
      cache_size s = cached_bytes (content_cache s)" .
  with assms(3) show ?thesis
    by (auto simp: group_points_def split: sum.splits)
qed

text \<open>
  The theorem at budget 10, for the group A (3 bytes), B (3 bytes), C (5 bytes),
  X (12 bytes), in the state reached after A and B: 6 bytes tracked, 6 bytes held.
\<close>

theorem cache_size_is_buffered_bytes_witness:
  "\<lparr>output_container = \<lparr>packed = []\<rparr>, old_obj_hashkeys = [], new_obj_hashkeys = [],
     content_cache = [(''A'', ''aaa''), (''B'', ''bbb'')], cache_size = 6\<rparr>
   \<in> set (group_points 10 fake_pack_writer \<lparr>packed = []\<rparr>
       [\<lparr>old_obj_hashkey = ''A'', stream = ''aaa'', meta_size = 3\<rparr>,
        \<lparr>old_obj_hashkey = ''B'', stream = ''bbb'', meta_size = 3\<rparr>,
        \<lparr>old_obj_hashkey = ''C'', stream = ''ccccc'', meta_size = 5\<rparr>,
        \<lparr>old_obj_hashkey = ''X'', stream = ''xxxxxxxxxxxx'', meta_size = 12\<rparr>])
   \<and> cached_bytes [(''A'', ''aaa''), (''B'', ''bbb'')] = 6"
proof -
  let ?st = "\<lparr>output_container = \<lparr>packed = []\<rparr>, old_obj_hashkeys = [],
     new_obj_hashkeys = [],
     content_cache = [(''A'', ''aaa''), (''B'', ''bbb'')], cache_size = 6\<rparr>"
  let ?ts = "[\<lparr>old_obj_hashkey = ''A'', stream = ''aaa'', meta_size = 3\<rparr>,
        \<lparr>old_obj_hashkey = ''B'', stream = ''bbb'', meta_size = 3\<rparr>,
        \<lparr>old_obj_hashkey = ''C'', stream = ''ccccc'', meta_size = 5\<rparr>,
        \<lparr>old_obj_hashkey = ''X'', stream = ''xxxxxxxxxxxx'', meta_size = 12\<rparr>]"
  have keys: "distinct (buffered_keys 10 ?ts)"
    by (simp add: buffered_keys_def)
  have sizes: "\<forall>t \<in> set ?ts. meta_size t = int (length (stream t))"
    by simp
  have point: "?st \<in> set (group_points 10 fake_pack_writer \<lparr>packed = []\<rparr> ?ts)"
    by (simp add: group_points_def step_defs Let_def)
  from cache_size_is_buffered_bytes [OF keys sizes point] point show ?thesis by simp
qed

text \<open>
  C4 as stated fails when an old identifier comes twice: the second assignment
  replaces the item in the dictionary and the size is added again. With the 2-byte
  object A yielded twice, the cache holds 2 bytes and the tracked size is 4.
\<close>

theorem repeated_key_size_counterexample:
  "\<lparr>output_container = \<lparr>packed = []\<rparr>, old_obj_hashkeys = [], new_obj_hashkeys = [],
     content_cache = [(''A'', ''ab'')], cache_size = 4\<rparr>
   \<in> set (group_points 100 fake_pack_writer \<lparr>packed = []\<rparr>
       [\<lparr>old_obj_hashkey = ''A'', stream = ''ab'', meta_size = 2\<rparr>,
        \<lparr>old_obj_hashkey = ''A'', stream = ''ab'', meta_size = 2\<rparr>])
   \<and> cached_bytes [(''A'', ''ab'')] = 2"
  by (simp add: group_points_def step_defs Let_def cached_bytes_def)

text \<open>
  C5, as the code has it. Recording never fails because of a repeated old identifier:
  with a writer that answers every single stream with at least one key, the function
  returns a mapping for every non-empty list of groups; and
  \<open>dict(zip(old_obj_hashkeys, new_obj_hashkeys))\<close> has one entry per old identifier,
  whose value is the new identifier paired with the last occurrence of the old one.
\<close>

theorem recording_overwrites_without_error:
  assumes "\<forall>s. w [s] \<noteq> []" and "node_uuids_groups \<noteq> []"
  shows "(\<exists>c mapping.
            export_from_pack_grouped max_memory_usage w node_uuids_groups = Inr (c, mapping))
    \<and> dict_get (dict_from_pairs (zip olds news)) k = map_of (rev (zip olds news)) k
    \<and> distinct (dict_keys (dict_from_pairs (zip olds news)))"
proof -
  from export_groups_no_error [OF assms(1), of max_memory_usage "\<lparr>packed = []\<rparr>" None
      node_uuids_groups] assms(2)
  have "\<exists>c mapping.
      export_from_pack_grouped max_memory_usage w node_uuids_groups = Inr (c, mapping)"
    by (auto simp: export_from_pack_grouped_def)
  moreover have "distinct (dict_keys (dict_from_pairs (zip olds news)))"
    by (simp add: dict_keys_def dict_from_pairs_def distinct_dict_update_pairs)
  ultimately show ?thesis by (simp add: dict_get_from_pairs)
qed

text \<open>
  The theorem for two groups that both hold A, and for the pairs \<open>(A, n1)\<close>,
  \<open>(A, n2)\<close>: the function returns, and the entry of A is \<open>n2\<close>.
\<close>

theorem recording_overwrites_without_error_witness:
  "(\<exists>c mapping.
      export_from_pack_grouped 100 fake_pack_writer
        [[\<lparr>old_obj_hashkey = ''A'', stream = ''ab'', meta_size = 2\<rparr>],
         [\<lparr>old_obj_hashkey = ''A'', stream = ''ab'', meta_size = 2\<rparr>]] = Inr (c, mapping))
   \<and> dict_get (dict_from_pairs (zip [''A'', ''A''] [''n1'', ''n2''])) ''A'' = Some ''n2''
   \<and> distinct (dict_keys (dict_from_pairs (zip [''A'', ''A''] [''n1'', ''n2''])))"
proof -
  have answers: "\<forall>s. fake_pack_writer [s] \<noteq> []"
    by (simp add: fake_pack_writer_def)
  have groups: "[[\<lparr>old_obj_hashkey = ''A'', stream = ''ab'', meta_size = 2\<rparr>],
         [\<lparr>old_obj_hashkey = ''A'', stream = ''ab'', meta_size = 2\<rparr>]] \<noteq> []"
    by simp
  from recording_overwrites_without_error [OF answers groups,
      of 100 "[''A'', ''A'']" "[''n1'', ''n2'']" "''A''"]
  show ?thesis by simp
qed

text \<open>
  C5 as stated fails: the object A is recorded in the first group and again in the
  second, and the function returns a mapping instead of failing; and the pairs
  \<open>(A, n1)\<close>, \<open>(A, n2)\<close> give the dictionary with the single entry \<open>(A, n2)\<close>.
\<close>

theorem duplicate_key_no_error_counterexample:
  "export_from_pack_grouped 100 fake_pack_writer
     [[\<lparr>old_obj_hashkey = ''A'', stream = ''ab'', meta_size = 2\<rparr>],
      [\<lparr>old_obj_hashkey = ''A'', stream = ''ab'', meta_size = 2\<rparr>]] =
   Inr (\<lparr>packed = [[''ab''], [''ab'']]\<rparr>, [(''A'', ''new:ab'')])
   \<and> dict_from_pairs (zip [''A'', ''A''] [''n1'', ''n2'']) = [(''A'', ''n2'')]"
  by (simp add: run_defs step_defs Let_def)

text \<open>
  C6. Scenario A: budget 100 and one group A, B, C with sizes 30, 30, 50. After A the
  cache holds A and its size is 30; after B it holds A and B and its size is 60; C
  makes the driver write the batch of A and B and then buffer C, size 50; the final
  flush writes the batch of C. The container has received exactly the two batches
  \<open>[A, B]\<close> and \<open>[C]\<close>, whatever the contents and the writer. The last part lists,
  for every state of the group, the keys in the cache, the tracked size and the batches
  written so far.
\<close>

theorem scenario_a_two_batches:
  "process_triplets 100 w (initial_state \<lparr>packed = []\<rparr>)
     [\<lparr>old_obj_hashkey = ''A'', stream = cA, meta_size = 30\<rparr>] =
   Inr \<lparr>output_container = \<lparr>packed = []\<rparr>, old_obj_hashkeys = [], new_obj_hashkeys = [],
        content_cache = [(''A'', cA)], cache_size = 30\<rparr>
   \<and> process_triplets 100 w (initial_state \<lparr>packed = []\<rparr>)
     [\<lparr>old_obj_hashkey = ''A'', stream = cA, meta_size = 30\<rparr>,
      \<lparr>old_obj_hashkey = ''B'', stream = cB, meta_size = 30\<rparr>] =
   Inr \<lparr>output_container = \<lparr>packed = []\<rparr>, old_obj_hashkeys = [], new_obj_hashkeys = [],
        content_cache = [(''A'', cA), (''B'', cB)], cache_size = 60\<rparr>
   \<and> process_triplets 100 w (initial_state \<lparr>packed = []\<rparr>)
     [\<lparr>old_obj_hashkey = ''A'', stream = cA, meta_size = 30\<rparr>,
      \<lparr>old_obj_hashkey = ''B'', stream = cB, meta_size = 30\<rparr>,
      \<lparr>old_obj_hashkey = ''C'', stream = cC, meta_size = 50\<rparr>] =
   Inr \<lparr>output_container = \<lparr>packed = [[cA, cB]]\<rparr>, old_obj_hashkeys = [''A'', ''B''],
        new_obj_hashkeys = w [cA, cB],
        content_cache = [(''C'', cC)], cache_size = 50\<rparr>
   \<and> export_from_pack_grouped 100 w
     [[\<lparr>old_obj_hashkey = ''A'', stream = cA, meta_size = 30\<rparr>,
       \<lparr>old_obj_hashkey = ''B'', stream = cB, meta_size = 30\<rparr>,
       \<lparr>old_obj_hashkey = ''C'', stream = cC, meta_size = 50\<rparr>]] =
   Inr (\<lparr>packed = [[cA, cB], [cC]]\<rparr>,
        dict_from_pairs (zip [''A'', ''B'', ''C''] (w [cA, cB] @ w [cC])))
   \<and> map (\<lambda>s. (map fst (content_cache s), cache_size s, packed (output_container s)))
       (group_points 100 w \<lparr>packed = []\<rparr>
          [\<lparr>old_obj_hashkey = ''A'', stream = cA, meta_size = 30\<rparr>,
           \<lparr>old_obj_hashkey = ''B'', stream = cB, meta_size = 30\<rparr>,
           \<lparr>old_obj_hashkey = ''C'', stream = cC, meta_size = 50\<rparr>]) =
     [([], 0, []),
      ([''A''], 30, []),
      ([''A'', ''B''], 60, []),
      ([], 0, [[cA, cB]]),
      ([''C''], 50, [[cA, cB]]),
      ([], 0, [[cA, cB], [cC]])]"
  by (simp add: step_defs export_from_pack_grouped_def export_group_def group_points_def
      Let_def)

text \<open>
  C7. With a writer that returns as many keys as it receives streams, at the end of a
  group: the new keys are the writer's answers to the batches of the group, batch by
  batch; the old keys line up with the streams written, so that the i-th old key and
  the i-th stream come from one triplet of the group; there are as many new keys as
  old keys; the mapping assigned is \<open>dict(zip(old_obj_hashkeys, new_obj_hashkeys))\<close>,
  and when the old keys are distinct its entry for the i-th old key is the i-th new
  key. For every flush, of any state \<open>s\<close>, the keys it appends and the batch it hands
  to the writer are the two sides of the items of the cache: zipped, they give the
  items back.
\<close>

theorem new_hashkeys_follow_written_streams:
  assumes "\<forall>ss. length (w ss) = length ss"
    and "process_triplets max_memory_usage w (initial_state c) triplets = Inr st"
  shows "let st' = flush_cache w st;
             batches = drop (length (packed c)) (packed (output_container st'));
             mapping = dict_from_pairs (zip (old_obj_hashkeys st') (new_obj_hashkeys st'))
         in export_group max_memory_usage w c triplets = Inr (output_container st', mapping) \<and>
            packed (output_container st') = packed c @ batches \<and>
            new_obj_hashkeys st' = concat (map w batches) \<and>
            length (new_obj_hashkeys st') = length (old_obj_hashkeys st') \<and>
            list_all2 (\<lambda>k s. \<exists>t \<in> set triplets. old_obj_hashkey t = k \<and> stream t = s)
              (old_obj_hashkeys st') (concat batches) \<and>
            (distinct (old_obj_hashkeys st') \<longrightarrow>
               (\<forall>i < length (old_obj_hashkeys st').
                  dict_get mapping (old_obj_hashkeys st' ! i) = Some (new_obj_hashkeys st' ! i))) \<and>
            zip (drop (length (old_obj_hashkeys s)) (old_obj_hashkeys (flush_cache w s)))
                (last (packed (output_container (flush_cache w s)))) = content_cache s"
proof -
  let ?R = "\<lambda>k s. \<exists>t \<in> set triplets. old_obj_hashkey t = k \<and> stream t = s"
  let ?st' = "flush_cache w st"
  have "positional ?R w c st"
    by (rule positional_loop [OF positional_initial _ assms]) auto
  then have "positional ?R w c ?st'" by (rule positional_flush)
  then obtain bs where bs: "packed (output_container ?st') = packed c @ bs"
      "new_obj_hashkeys ?st' = concat (map w bs)"
      "list_all2 ?R (old_obj_hashkeys ?st') (concat bs)"
    by (auto simp: positional_def)
  have drop: "drop (length (packed c)) (packed (output_container ?st')) = bs"
    by (simp add: bs(1))
  have len: "length (new_obj_hashkeys ?st') = length (old_obj_hashkeys ?st')"
    using list_all2_lengthD [OF bs(3)] length_concat_writer [OF assms(1), of bs]
    by (simp add: bs(2))
  have group: "export_group max_memory_usage w c triplets =
      Inr (output_container ?st',
           dict_from_pairs (zip (old_obj_hashkeys ?st') (new_obj_hashkeys ?st')))"
    by (simp add: export_group_def assms(2) Let_def)
  have paired: "dict_get (dict_from_pairs (zip (old_obj_hashkeys ?st') (new_obj_hashkeys ?st')))
        (old_obj_hashkeys ?st' ! i) = Some (new_obj_hashkeys ?st' ! i)"
    if "distinct (old_obj_hashkeys ?st')" "i < length (old_obj_hashkeys ?st')" for i
    using that(1) len that(2) by (rule dict_get_zip_nth)
  have items: "zip (drop (length (old_obj_hashkeys s)) (old_obj_hashkeys (flush_cache w s)))
                (last (packed (output_container (flush_cache w s)))) = content_cache s"
    by (simp add: flush_cache_def add_streamed_objects_to_pack_def dict_items_def Let_def
        zip_map_fst_snd)
  from group bs len items paired show ?thesis
    unfolding Let_def drop by simp
qed

text \<open>
  The theorem at budget 10 for the group A, B, C, X: the batches are \<open>[A, B]\<close>,
  \<open>[X]\<close> and \<open>[C]\<close>, the old keys are A, B, X, C, and the entry of the third old
  key, X, is the third new key.
\<close>

theorem new_hashkeys_follow_written_streams_witness:
  "export_group 10 fake_pack_writer \<lparr>packed = []\<rparr>
       [\<lparr>old_obj_hashkey = ''A'', stream = ''aaa'', meta_size = 3\<rparr>,
        \<lparr>old_obj_hashkey = ''B'', stream = ''bbb'', meta_size = 3\<rparr>,
        \<lparr>old_obj_hashkey = ''C'', stream = ''ccccc'', meta_size = 5\<rparr>,
        \<lparr>old_obj_hashkey = ''X'', stream = ''xxxxxxxxxxxx'', meta_size = 12\<rparr>] =
     Inr (\<lparr>packed = [[''aaa'', ''bbb''], [''xxxxxxxxxxxx''], [''ccccc'']]\<rparr>,
          [(''A'', ''new:aaa''), (''B'', ''new:bbb''), (''X'', ''new:xxxxxxxxxxxx''),
           (''C'', ''new:ccccc'')])
   \<and> distinct [''A'', ''B'', ''X'', ''C'']
   \<and> dict_get [(''A'', ''new:aaa''), (''B'', ''new:bbb''), (''X'', ''new:xxxxxxxxxxxx''),
           (''C'', ''new:ccccc'')] ([''A'', ''B'', ''X'', ''C''] ! 2) = Some ''new:xxxxxxxxxxxx''"
proof -
  let ?ts = "[\<lparr>old_obj_hashkey = ''A'', stream = ''aaa'', meta_size = 3\<rparr>,
        \<lparr>old_obj_hashkey = ''B'', stream = ''bbb'', meta_size = 3\<rparr>,
        \<lparr>old_obj_hashkey = ''C'', stream = ''ccccc'', meta_size = 5\<rparr>,
        \<lparr>old_obj_hashkey = ''X'', stream = ''xxxxxxxxxxxx'', meta_size = 12\<rparr>]"
  let ?st = "\<lparr>output_container = \<lparr>packed = [[''aaa'', ''bbb''], [''xxxxxxxxxxxx'']]\<rparr>,
      old_obj_hashkeys = [''A'', ''B'', ''X''],
      new_obj_hashkeys = [''new:aaa'', ''new:bbb'', ''new:xxxxxxxxxxxx''],
      content_cache = [(''C'', ''ccccc'')], cache_size = 5\<rparr>"
  have answers: "\<forall>ss. length (fake_pack_writer ss) = length ss"
    by (simp add: fake_pack_writer_def)
  have run: "process_triplets 10 fake_pack_writer (initial_state \<lparr>packed = []\<rparr>) ?ts = Inr ?st"
    by (simp add: step_defs fake_pack_writer_def Let_def)
  from new_hashkeys_follow_written_streams [OF answers run]
  show ?thesis
    by (simp add: Let_def flush_cache_def add_streamed_objects_to_pack_def dict_items_def
        fake_pack_writer_def dict_from_pairs_def dict_get_def)
qed

text \<open>
  C8. Take any call of the function whose writer returns as many keys as it receives
  streams, any group \<open>g\<close> of the call (after the groups \<open>gs1\<close>, before the groups
  \<open>gs2\<close>) and any triplet of \<open>g\<close>, at index \<open>n\<close>, whose declared size is strictly
  greater than the budget. The loop reaches the triplet in a state \<open>st\<close> and leaves it
  in a state \<open>st'\<close> such that
  \<^item> the container has received exactly one more batch, the one stream of the triplet;
  \<^item> the old key and the key \<open>h\<close> returned by the writer have been appended to the two
    result lists, which had the same length, so both stand at the same index;
  \<^item> the cache and its tracked size are what they were.

  At the end of the group the two keys still stand at that index of the lists that
  line 189 zips into \<open>old_new_obj_hashkey_mapping\<close>; the mapping has an entry for the
  old key, and when the old keys of the group are distinct that entry is \<open>h\<close>. This
  mapping is what the function returns when \<open>g\<close> is the last group; and whatever
  groups follow, the container returned holds the batch, right after the batches
  written before the triplet was reached.
\<close>

theorem oversized_object_written_and_recorded:
  assumes "\<forall>ss. length (w ss) = length ss"
    and "n < length g"
    and "meta_size (g ! n) > max_memory_usage"
  shows "\<exists>c1 mp1 st st' h stf cf mf later.
      export_groups max_memory_usage w \<lparr>packed = []\<rparr> None gs1 = Inr (c1, mp1) \<and>
      process_triplets max_memory_usage w (initial_state c1) (take n g) = Inr st \<and>
      w [stream (g ! n)] = [h] \<and>
      process_triplets max_memory_usage w (initial_state c1) (take (Suc n) g) = Inr st' \<and>
      packed (output_container st') = packed (output_container st) @ [[stream (g ! n)]] \<and>
      old_obj_hashkeys st' = old_obj_hashkeys st @ [old_obj_hashkey (g ! n)] \<and>
      new_obj_hashkeys st' = new_obj_hashkeys st @ [h] \<and>
      length (new_obj_hashkeys st) = length (old_obj_hashkeys st) \<and>
      content_cache st' = content_cache st \<and>
      cache_size st' = cache_size st \<and>
      process_triplets max_memory_usage w (initial_state c1) g = Inr stf \<and>
      (let olds = old_obj_hashkeys (flush_cache w stf);
           news = new_obj_hashkeys (flush_cache w stf);
           mapping = dict_from_pairs (zip olds news);
           c2 = output_container (flush_cache w stf);
           j = length (old_obj_hashkeys st)
       in export_group max_memory_usage w c1 g = Inr (c2, mapping) \<and>
          length news = length olds \<and>
          j < length olds \<and>
          olds ! j = old_obj_hashkey (g ! n) \<and>
          news ! j = h \<and>
          dict_get mapping (old_obj_hashkey (g ! n)) \<noteq> None \<and>
          (distinct (map old_obj_hashkey g) \<longrightarrow>
             dict_get mapping (old_obj_hashkey (g ! n)) = Some h) \<and>
          export_from_pack_grouped max_memory_usage w (gs1 @ [g]) = Inr (c2, mapping)) \<and>
      export_from_pack_grouped max_memory_usage w (gs1 @ g # gs2) = Inr (cf, mf) \<and>
      packed cf = packed (output_container st) @ [stream (g ! n)] # later"
proof -
  let ?m = max_memory_usage
  let ?t = "g ! n"
  from assms(1) have answers: "\<forall>s. w [s] \<noteq> []"
    by (metis length_0_conv list.distinct(1) list.size(3))
  \<comment> \<open>the groups before\<close>
  from export_groups_no_error [OF answers, of ?m "\<lparr>packed = []\<rparr>" None gs1]
  obtain c1 mp1 where before: "export_groups ?m w \<lparr>packed = []\<rparr> None gs1 = Inr (c1, mp1)"
    by blast
  \<comment> \<open>the loop up to the object\<close>
  from process_triplets_no_error [OF answers, of ?m "initial_state c1" "take n g"]
  obtain st where reached: "process_triplets ?m w (initial_state c1) (take n g) = Inr st"
    by blast
  from assms(1) have "length (w [stream ?t]) = 1" by simp
  then obtain h where h: "w [stream ?t] = [h]"
    by (cases "w [stream ?t]") auto
  define st' where "st' = st\<lparr>output_container :=
              (output_container st)\<lparr>packed := packed (output_container st) @ [[stream ?t]]\<rparr>,
            old_obj_hashkeys := old_obj_hashkeys st @ [old_obj_hashkey ?t],
            new_obj_hashkeys := new_obj_hashkeys st @ [h]\<rparr>"
  have step: "process_triplet ?m w st ?t = Inr st'"
    unfolding st'_def using assms(3) h by (rule direct_write_step)
  have upto: "process_triplets ?m w (initial_state c1) (take (Suc n) g) = Inr st'"
    using assms(2) reached step
    by (simp add: take_Suc_conv_app_nth process_triplets_append)
  have aligned: "length (new_obj_hashkeys st) = length (old_obj_hashkeys st)"
    using assms(1) reached by (rule aligned_lists(1))
  \<comment> \<open>the rest of the group and the final flush\<close>
  from process_triplets_no_error [OF answers, of ?m st' "drop (Suc n) g"]
  obtain stf where rest: "process_triplets ?m w st' (drop (Suc n) g) = Inr stf"
    by blast
  have "process_triplets ?m w (initial_state c1) (take (Suc n) g @ drop (Suc n) g) = Inr stf"
    using upto rest by (simp only: process_triplets_append sum.case)
  then have whole: "process_triplets ?m w (initial_state c1) g = Inr stf"
    by simp
  let ?end = "flush_cache w stf"
  let ?olds = "old_obj_hashkeys ?end"
  let ?news = "new_obj_hashkeys ?end"
  let ?mapping = "dict_from_pairs (zip ?olds ?news)"
  have group: "export_group ?m w c1 g = Inr (output_container ?end, ?mapping)"
    by (simp add: export_group_def whole Let_def)
  from grown_loop [OF rest] grown_flush [of stf w] have "grown st' ?end"
    by (rule grown_trans)
  then obtain bs os ns where
      packed_end: "packed (output_container ?end) = packed (output_container st') @ bs"
    and olds_end: "?olds = old_obj_hashkeys st' @ os"
    and news_end: "?news = new_obj_hashkeys st' @ ns"
    by (auto simp: grown_def)
  let ?j = "length (old_obj_hashkeys st)"
  have len: "length ?news = length ?olds"
    using assms(1) whole by (rule aligned_lists(2))
  have j: "?j < length ?olds"
    by (simp add: olds_end st'_def)
  have old_j: "?olds ! ?j = old_obj_hashkey ?t"
    by (simp add: olds_end st'_def nth_append)
  have new_j: "?news ! ?j = h"
    using aligned by (simp add: news_end st'_def nth_append)
  have "(?olds ! ?j, ?news ! ?j) \<in> set (zip ?olds ?news)"
    using j len by (auto simp: set_zip)
  then have present: "dict_get ?mapping (old_obj_hashkey ?t) \<noteq> None"
    unfolding old_j by (rule dict_get_from_pairs_present)
  have exact: "dict_get ?mapping (old_obj_hashkey ?t) = Some h"
    if "distinct (map old_obj_hashkey g)"
  proof -
    from that whole have "distinct ?olds" by (rule distinct_old_keys_of_group)
    from dict_get_zip_nth [OF this len j] show ?thesis
      by (simp only: old_j new_j)
  qed
  \<comment> \<open>the whole call\<close>
  have last: "export_from_pack_grouped ?m w (gs1 @ [g]) = Inr (output_container ?end, ?mapping)"
    by (simp add: export_from_pack_grouped_def export_groups_last before group)
  from export_groups_no_error [OF answers, of ?m "output_container ?end" "Some ?mapping" gs2]
  obtain cf mf where after:
      "export_groups ?m w (output_container ?end) (Some ?mapping) gs2 =
         Inr (cf, if gs2 = [] then Some ?mapping else Some mf)"
    by blast
  let ?mf = "if gs2 = [] then ?mapping else mf"
  have "export_groups ?m w \<lparr>packed = []\<rparr> None (gs1 @ g # gs2) = Inr (cf, Some ?mf)"
    using before group after by (simp add: export_groups_append)
  then have all: "export_from_pack_grouped ?m w (gs1 @ g # gs2) = Inr (cf, ?mf)"
    by (simp add: export_from_pack_grouped_def)
  from export_groups_packed [OF after] obtain bs' where
      "packed cf = packed (output_container ?end) @ bs'"
    by blast
  then have packed_cf: "packed cf = packed (output_container st) @ [stream ?t] # (bs @ bs')"
    by (simp add: packed_end st'_def)
  have facts: "packed (output_container st') = packed (output_container st) @ [[stream ?t]]"
      "old_obj_hashkeys st' = old_obj_hashkeys st @ [old_obj_hashkey ?t]"
      "new_obj_hashkeys st' = new_obj_hashkeys st @ [h]"
      "content_cache st' = content_cache st" "cache_size st' = cache_size st"
    by (simp_all add: st'_def)
  show ?thesis
    unfolding Let_def
    apply (rule exI [of _ c1], rule exI [of _ mp1], rule exI [of _ st], rule exI [of _ st'])
    apply (rule exI [of _ h], rule exI [of _ stf], rule exI [of _ cf], rule exI [of _ ?mf])
    apply (rule exI [of _ "bs @ bs'"])
    using before reached h upto facts aligned whole group len j old_j new_j present exact
      last all packed_cf
    apply (intro conjI impI)
    apply (assumption | rule refl)+
    done
qed

text \<open>
  The theorem at budget 10 for the groups \<open>[B]\<close>, \<open>[A, X]\<close> and \<open>[C]\<close>, with the
  12-byte object X met while A is in the cache: X is written as a batch of its own
  after the batch of B, A stays in the cache, and the mapping of the group sends X to
  its new key.
\<close>

theorem oversized_object_written_and_recorded_witness:
  "process_triplets 10 fake_pack_writer (initial_state \<lparr>packed = [[''bbb'']]\<rparr>)
     [\<lparr>old_obj_hashkey = ''A'', stream = ''aaa'', meta_size = 3\<rparr>] =
   Inr \<lparr>output_container = \<lparr>packed = [[''bbb'']]\<rparr>, old_obj_hashkeys = [],
        new_obj_hashkeys = [], content_cache = [(''A'', ''aaa'')], cache_size = 3\<rparr>
   \<and> process_triplets 10 fake_pack_writer (initial_state \<lparr>packed = [[''bbb'']]\<rparr>)
     [\<lparr>old_obj_hashkey = ''A'', stream = ''aaa'', meta_size = 3\<rparr>,
      \<lparr>old_obj_hashkey = ''X'', stream = ''xxxxxxxxxxxx'', meta_size = 12\<rparr>] =
   Inr \<lparr>output_container = \<lparr>packed = [[''bbb''], [''xxxxxxxxxxxx'']]\<rparr>,
        old_obj_hashkeys = [''X''], new_obj_hashkeys = [''new:xxxxxxxxxxxx''],
        content_cache = [(''A'', ''aaa'')], cache_size = 3\<rparr>
   \<and> export_from_pack_grouped 10 fake_pack_writer
     [[\<lparr>old_obj_hashkey = ''B'', stream = ''bbb'', meta_size = 3\<rparr>],
      [\<lparr>old_obj_hashkey = ''A'', stream = ''aaa'', meta_size = 3\<rparr>,
       \<lparr>old_obj_hashkey = ''X'', stream = ''xxxxxxxxxxxx'', meta_size = 12\<rparr>]] =
   Inr (\<lparr>packed = [[''bbb''], [''xxxxxxxxxxxx''], [''aaa'']]\<rparr>,
        [(''X'', ''new:xxxxxxxxxxxx''), (''A'', ''new:aaa'')])
   \<and> dict_get [(''X'', ''new:xxxxxxxxxxxx''), (''A'', ''new:aaa'')] ''X'' =
       Some ''new:xxxxxxxxxxxx''
   \<and> (\<exists>cf mf. export_from_pack_grouped 10 fake_pack_writer
     [[\<lparr>old_obj_hashkey = ''B'', stream = ''bbb'', meta_size = 3\<rparr>],
      [\<lparr>old_obj_hashkey = ''A'', stream = ''aaa'', meta_size = 3\<rparr>,
       \<lparr>old_obj_hashkey = ''X'', stream = ''xxxxxxxxxxxx'', meta_size = 12\<rparr>],
      [\<lparr>old_obj_hashkey = ''C'', stream = ''ccccc'', meta_size = 5\<rparr>]] = Inr (cf, mf)
      \<and> packed cf = [[''bbb''], [''xxxxxxxxxxxx''], [''aaa''], [''ccccc'']])"
proof -
  let ?g = "[\<lparr>old_obj_hashkey = ''A'', stream = ''aaa'', meta_size = 3\<rparr>,
       \<lparr>old_obj_hashkey = ''X'', stream = ''xxxxxxxxxxxx'', meta_size = 12\<rparr>]"
  have answers: "\<forall>ss. length (fake_pack_writer ss) = length ss"
    by (simp add: fake_pack_writer_def)
  have index: "1 < length ?g" by simp
  have big: "meta_size (?g ! 1) > 10" by simp
  from oversized_object_written_and_recorded [OF answers index big,
      of "[[\<lparr>old_obj_hashkey = ''B'', stream = ''bbb'', meta_size = 3\<rparr>]]"
         "[[\<lparr>old_obj_hashkey = ''C'', stream = ''ccccc'', meta_size = 5\<rparr>]]"]
  show ?thesis
    by (simp add: run_defs step_defs Let_def)
qed

text \<open>
  C9, as the code has it. An object whose declared size equals the budget is buffered
  without a flush exactly when the tracked size of the cache is not positive, and it
  takes the flush-then-buffer branch exactly when the tracked size is positive. In a
  state of a group where the cache is empty the tracked size is zero, so there the
  object is buffered without a flush.
\<close>

theorem exact_budget_object_buffered_iff_size_zero:
  assumes "meta_size t = max_memory_usage"
  shows "(process_triplet max_memory_usage w st t = Inr (buffer_object st t)
           \<longleftrightarrow> cache_size st \<le> 0) \<and>
         (process_triplet max_memory_usage w st t = Inr (buffer_object (flush_cache w st) t)
           \<longleftrightarrow> 0 < cache_size st) \<and>
         (st \<in> set (group_points max_memory_usage w c triplets) \<and> content_cache st = []
           \<longrightarrow> process_triplet max_memory_usage w st t = Inr (buffer_object st t))"
proof -
  have a: "process_triplet max_memory_usage w st t = Inr (buffer_object st t)
           \<longleftrightarrow> cache_size st \<le> 0"
    using assms flush_changes_container [of w st t] by (auto simp: process_triplet_def)
  have b: "process_triplet max_memory_usage w st t = Inr (buffer_object (flush_cache w st) t)
           \<longleftrightarrow> 0 < cache_size st"
    using assms flush_changes_container [of w st t] by (auto simp: process_triplet_def)
  have "cache_size st = 0"
    if "st \<in> set (group_points max_memory_usage w c triplets)" "content_cache st = []"
    using that by (rule empty_cache_size_group)
  with a b show ?thesis by auto
qed

text \<open>
  The theorem at budget 3 for the 3-byte object A, met first in its group: it is
  buffered, and no batch is written.
\<close>

theorem exact_budget_object_buffered_iff_size_zero_witness:
  "initial_state \<lparr>packed = []\<rparr> \<in> set (group_points 3 fake_pack_writer \<lparr>packed = []\<rparr>
       [\<lparr>old_obj_hashkey = ''A'', stream = ''abc'', meta_size = 3\<rparr>])
   \<and> process_triplet 3 fake_pack_writer (initial_state \<lparr>packed = []\<rparr>)
       \<lparr>old_obj_hashkey = ''A'', stream = ''abc'', meta_size = 3\<rparr> =
     Inr \<lparr>output_container = \<lparr>packed = []\<rparr>, old_obj_hashkeys = [], new_obj_hashkeys = [],
          content_cache = [(''A'', ''abc'')], cache_size = 3\<rparr>"
proof -
  let ?t = "\<lparr>old_obj_hashkey = ''A'', stream = ''abc'', meta_size = 3\<rparr>"
  have exact: "meta_size ?t = 3" by simp
  have point: "initial_state \<lparr>packed = []\<rparr> \<in>
      set (group_points 3 fake_pack_writer \<lparr>packed = []\<rparr> [?t])"
    by (simp add: group_points_def)
  have empty: "content_cache (initial_state \<lparr>packed = []\<rparr>) = []"
    by (simp add: initial_state_def)
  from exact_budget_object_buffered_iff_size_zero [OF exact,
      of fake_pack_writer "initial_state \<lparr>packed = []\<rparr>" "\<lparr>packed = []\<rparr>" "[?t]"] point empty
  have "process_triplet 3 fake_pack_writer (initial_state \<lparr>packed = []\<rparr>) ?t =
      Inr (buffer_object (initial_state \<lparr>packed = []\<rparr>) ?t)"
    by blast
  with point show ?thesis
    by (simp add: buffer_object_def initial_state_def)
qed

text \<open>
  C9 as stated fails on a cache that holds only empty objects: after the 0-byte object
  Z the cache is not empty, and the 3-byte object A, as large as the budget, is
  buffered next to it; nothing is flushed.
\<close>

theorem exact_budget_nonempty_cache_counterexample:
  "process_triplets 3 fake_pack_writer (initial_state \<lparr>packed = []\<rparr>)
     [\<lparr>old_obj_hashkey = ''Z'', stream = '''', meta_size = 0\<rparr>] =
   Inr \<lparr>output_container = \<lparr>packed = []\<rparr>, old_obj_hashkeys = [], new_obj_hashkeys = [],
        content_cache = [(''Z'', '''')], cache_size = 0\<rparr>
   \<and> process_triplet 3 fake_pack_writer
       \<lparr>output_container = \<lparr>packed = []\<rparr>, old_obj_hashkeys = [], new_obj_hashkeys = [],
        content_cache = [(''Z'', '''')], cache_size = 0\<rparr>
       \<lparr>old_obj_hashkey = ''A'', stream = ''abc'', meta_size = 3\<rparr> =
     Inr \<lparr>output_container = \<lparr>packed = []\<rparr>, old_obj_hashkeys = [], new_obj_hashkeys = [],
          content_cache = [(''Z'', ''''), (''A'', ''abc'')], cache_size = 3\<rparr>"
  by (simp add: step_defs)

text \<open>
  C10. Called with no group at all, the function does not return a mapping: the
  variable read by the return statement was never assigned, and the call ends with
  \<open>UnboundLocalError\<close>, whatever the memory budget and the writer.
\<close>

theorem no_groups_unbound_mapping:
  "export_from_pack_grouped max_memory_usage w [] = Inl UnboundLocalError"
  by (simp add: export_from_pack_grouped_def)

theorem no_groups_unbound_mapping_witness:
  "export_from_pack_grouped 100 fake_pack_writer [] = Inl UnboundLocalError"
  using no_groups_unbound_mapping [of 100 fake_pack_writer] by simp

end
